theory Spec2Isabelle
  imports Main
begin

section \<open>Python values, errors and indexing\<close>

text \<open>
  The scripts are Python. An exception is a value of \<open>py_error\<close> and a function that can
  raise returns \<open>py_error + 'a\<close>, with \<open>Inl\<close> for the exception. Python integers are
  unbounded, hence \<open>int\<close>. The specification's names for the failures are
  \<open>IndexOutOfRange\<close> (Python raises \<open>IndexError\<close>) and \<open>InsufficientRange\<close>
  (\<open>random.sample\<close> raises \<open>ValueError\<close>).
\<close>

datatype py_error = IndexError | ValueError | TypeError

text \<open>
  \<open>xs[i]\<close> on a Python list: a negative index counts from the end, and an index outside
  \<open>[-len, len)\<close> raises \<open>IndexError\<close>.
\<close>

definition py_index :: "'a list \<Rightarrow> int \<Rightarrow> py_error + 'a" where
  "py_index xs i =
     (let n = int (length xs); j = (if i < 0 then i + n else i)
      in if 0 \<le> j \<and> j < n then Inr (xs ! nat j) else Inl IndexError)"

text \<open>\<open>xs[i] = v\<close> on a Python list, with the same index rule.\<close>

definition py_setitem :: "'a list \<Rightarrow> int \<Rightarrow> 'a \<Rightarrow> py_error + 'a list" where
  "py_setitem xs i v =
     (let n = int (length xs); j = (if i < 0 then i + n else i)
      in if 0 \<le> j \<and> j < n then Inr (xs[nat j := v]) else Inl IndexError)"

text \<open>\<open>range(a, b)\<close> with step one, as the list of its elements.\<close>

definition py_range :: "int \<Rightarrow> int \<Rightarrow> int list" where
  "py_range a b = [a..b - 1]"

section \<open>Trace generator\<close>

text \<open>
  \<^verbatim>\<open>
  def gen_fib_trace(n):
      trace = [1,1]
      for i in range(2,n):
          trace.append(trace[-1] + trace[-2])
      return trace
  \<close>
  The same text stands in \<open>mini_stark.py\<close>, \<open>vuln_stark.py\<close> and
  \<open>pqzk_poc/mini_stark_qsafe.py\<close>. The loop variable is not used by the body; the two
  reads \<open>trace[-1]\<close> and \<open>trace[-2]\<close> are Python index operations and keep their
  failure branch in the model.
\<close>

fun gen_fib_loop :: "int list \<Rightarrow> int list \<Rightarrow> py_error + int list" where
  "gen_fib_loop [] trace = Inr trace"
| "gen_fib_loop (i # rest) trace =
     (case py_index trace (- 1) of
        Inl e \<Rightarrow> Inl e
      | Inr a \<Rightarrow>
          (case py_index trace (- 2) of
             Inl e \<Rightarrow> Inl e
           | Inr b \<Rightarrow> gen_fib_loop rest (trace @ [a + b])))"

definition gen_fib_trace :: "int \<Rightarrow> py_error + int list" where
  "gen_fib_trace n = gen_fib_loop (py_range 2 n) [1, 1]"

section \<open>Proof builder and verifier\<close>

text \<open>
  \<^verbatim>\<open>
  def prove(trace, indices):
      proof = []
      for i in indices:
          lhs = trace[i] + trace[i+1]
          rhs = trace[i+2]
          proof.append((i,lhs,rhs))
      return proof
  \<close>
  (\<open>mini_stark.py\<close>). The three reads are evaluated in the order \<open>trace[i]\<close>,
  \<open>trace[i+1]\<close>, \<open>trace[i+2]\<close>; the first one that is out of range ends the call.
\<close>

fun prove_loop ::
  "int list \<Rightarrow> int list \<Rightarrow> (int \<times> int \<times> int) list \<Rightarrow> py_error + (int \<times> int \<times> int) list" where
  "prove_loop trace [] proof = Inr proof"
| "prove_loop trace (i # rest) proof =
     (case py_index trace i of
        Inl e \<Rightarrow> Inl e
      | Inr a \<Rightarrow>
          (case py_index trace (i + 1) of
             Inl e \<Rightarrow> Inl e
           | Inr b \<Rightarrow>
               (case py_index trace (i + 2) of
                  Inl e \<Rightarrow> Inl e
                | Inr c \<Rightarrow> prove_loop trace rest (proof @ [(i, a + b, c)]))))"

definition prove :: "int list \<Rightarrow> int list \<Rightarrow> py_error + (int \<times> int \<times> int) list" where
  "prove trace indices = prove_loop trace indices []"

text \<open>
  \<^verbatim>\<open>
  def verify(proof):
      for (i,lhs,rhs) in proof:
          if lhs != rhs:
              return False
      return True
  \<close>
  (\<open>mini_stark.py\<close>; \<open>verify_proof\<close> of \<open>pqzk_poc/mini_stark_qsafe.py\<close> has the same
  body).
\<close>

fun verify :: "(int \<times> int \<times> int) list \<Rightarrow> bool" where
  "verify [] = True"
| "verify ((i, lhs, rhs) # rest) = (if lhs \<noteq> rhs then False else verify rest)"

fun verify_proof :: "(int \<times> int \<times> int) list \<Rightarrow> bool" where
  "verify_proof [] = True"
| "verify_proof ((i, lhs, rhs) # rest) = (if lhs \<noteq> rhs then False else verify_proof rest)"

section \<open>Leaf hasher\<close>

text \<open>
  The hashers take any Python value and hash its \<open>str\<close>: a trace element is an integer
  (its decimal text is hashed), an inner node is the concatenation of two digests, already
  a string. \<open>hashlib.sha3_512(b).hexdigest()\<close> belongs to the Python standard library
  and is a parameter \<open>sha3_512_hex\<close> of everything that hashes; no property of it is
  assumed.
  \<^verbatim>\<open>
  def hash512(x):
      return hashlib.sha3_512(str(x).encode()).hexdigest()

  def hash_trunc16(x):
      h = hashlib.sha3_512(str(x).encode()).hexdigest()
      return h[:4]   # 16 bits only -> collisions trivial
  \<close>
\<close>

datatype pyval = PInt int | PStr string

fun str_nat :: "nat \<Rightarrow> string" where
  "str_nat n =
     (if n < 10 then [''0123456789'' ! n]
      else str_nat (n div 10) @ [''0123456789'' ! (n mod 10)])"

declare str_nat.simps [simp del]

definition str_int :: "int \<Rightarrow> string" where
  "str_int i = (if i < 0 then CHR ''-'' # str_nat (nat (- i)) else str_nat (nat i))"

fun py_str :: "pyval \<Rightarrow> string" where
  "py_str (PInt i) = str_int i"
| "py_str (PStr s) = s"

definition hash512 :: "(string \<Rightarrow> string) \<Rightarrow> pyval \<Rightarrow> string" where
  "hash512 sha3_512_hex x = sha3_512_hex (py_str x)"

definition hash_trunc16 :: "(string \<Rightarrow> string) \<Rightarrow> pyval \<Rightarrow> string" where
  "hash_trunc16 sha3_512_hex x = (let h = sha3_512_hex (py_str x) in take 4 h)"

section \<open>Merkle commitment builder\<close>

text \<open>
  One level of the fold, the comprehension
  \<^verbatim>\<open>[hash_func(L[i] + L[i+1]) for i in range(0, len(L), 2)]\<close>
  which stands in every Merkle loop of the repository. On a list of odd length the read
  \<open>L[i+1]\<close> of the last round is out of range and raises.
\<close>

fun hash_pairs :: "(pyval \<Rightarrow> string) \<Rightarrow> string list \<Rightarrow> py_error + string list" where
  "hash_pairs hash_func [] = Inr []"
| "hash_pairs hash_func [a] = Inl IndexError"
| "hash_pairs hash_func (a # b # rest) =
     (case hash_pairs hash_func rest of
        Inl e \<Rightarrow> Inl e
      | Inr hs \<Rightarrow> Inr (hash_func (PStr (a @ b)) # hs))"

text \<open>
  \<open>vuln_stark.py\<close>:
  \<^verbatim>\<open>
  def commit_trace(trace, hash_func=hash_trunc16):
      leaves = [hash_func(v) for v in trace]
      while len(leaves) > 1:
          if len(leaves) % 2 != 0:
              leaves.append(leaves[-1])
          leaves = [hash_func(leaves[i] + leaves[i+1]) for i in range(0,len(leaves),2)]
      return leaves[0], leaves  # also return final leaves for demo
  \<close>
  The loop rebinds the variable \<open>leaves\<close> at every level, and the \<open>return\<close> reads that
  same variable. The read \<open>leaves[-1]\<close> happens only inside the loop, on a list of more
  than one element, where it is the last element; \<open>leaves[0]\<close> after the loop raises on
  the empty list.
\<close>

function vuln_commit_trace_loop ::
  "(pyval \<Rightarrow> string) \<Rightarrow> string list \<Rightarrow> py_error + string list" where
  "vuln_commit_trace_loop hash_func leaves =
     (if length leaves > 1 then
        (case hash_pairs hash_func
                (if length leaves mod 2 \<noteq> 0 then leaves @ [last leaves] else leaves) of
           Inl e \<Rightarrow> Inl e
         | Inr leaves' \<Rightarrow> vuln_commit_trace_loop hash_func leaves')
      else Inr leaves)"
  by pat_completeness auto
termination
proof (relation "measure (\<lambda>(h, leaves). length leaves)")
  show "wf (measure (\<lambda>(h, leaves). length leaves))" by simp
next
  fix hash_func :: "pyval \<Rightarrow> string" and leaves leaves' :: "string list"
  assume gt: "1 < length leaves"
    and ok: "hash_pairs hash_func
               (if length leaves mod 2 \<noteq> 0 then leaves @ [last leaves] else leaves) = Inr leaves'"
  have len: "hash_pairs hash_func xs = Inr ys \<Longrightarrow> 2 * length ys = length xs" for xs ys
    by (induction hash_func xs arbitrary: ys rule: hash_pairs.induct)
       (auto split: sum.splits)
  from len[OF ok] gt
  show "((hash_func, leaves'), (hash_func, leaves)) \<in> measure (\<lambda>(h, leaves). length leaves)"
    by (auto split: if_splits)
qed

declare vuln_commit_trace_loop.simps [simp del]

definition vuln_commit_trace ::
  "(pyval \<Rightarrow> string) \<Rightarrow> int list \<Rightarrow> py_error + (string \<times> string list)" where
  "vuln_commit_trace hash_func trace =
     (case vuln_commit_trace_loop hash_func (map (\<lambda>v. hash_func (PInt v)) trace) of
        Inl e \<Rightarrow> Inl e
      | Inr leaves \<Rightarrow>
          (case py_index leaves 0 of
             Inl e \<Rightarrow> Inl e
           | Inr root \<Rightarrow> Inr (root, leaves)))"

text \<open>
  \<open>pqzk_poc/mini_stark_qsafe.py\<close>:
  \<^verbatim>\<open>
  def merkle_root_from_leaves(leaves):
      L = list(leaves)
      while len(L) > 1:
          if len(L) % 2 != 0:
              L.append(L[-1])
          L = [hash512(L[i] + L[i+1]) for i in range(0, len(L), 2)]
      return L[0]

  def commit_trace(trace):
      leaves = [hash512(v) for v in trace]
      root = merkle_root_from_leaves(leaves)
      return root, leaves
  \<close>
\<close>

function merkle_root_loop :: "(string \<Rightarrow> string) \<Rightarrow> string list \<Rightarrow> py_error + string list" where
  "merkle_root_loop sha3_512_hex L =
     (if length L > 1 then
        (case hash_pairs (hash512 sha3_512_hex)
                (if length L mod 2 \<noteq> 0 then L @ [last L] else L) of
           Inl e \<Rightarrow> Inl e
         | Inr L' \<Rightarrow> merkle_root_loop sha3_512_hex L')
      else Inr L)"
  by pat_completeness auto
termination
proof (relation "measure (\<lambda>(h, L). length L)")
  show "wf (measure (\<lambda>(h, L). length L))" by simp
next
  fix sha3_512_hex :: "string \<Rightarrow> string" and L L' :: "string list"
  assume gt: "1 < length L"
    and ok: "hash_pairs (hash512 sha3_512_hex)
               (if length L mod 2 \<noteq> 0 then L @ [last L] else L) = Inr L'"
  have len: "hash_pairs h xs = Inr ys \<Longrightarrow> 2 * length ys = length xs" for h xs ys
    by (induction h xs arbitrary: ys rule: hash_pairs.induct)
       (auto split: sum.splits)
  from len[OF ok] gt
  show "((sha3_512_hex, L'), (sha3_512_hex, L)) \<in> measure (\<lambda>(h, L). length L)"
    by (auto split: if_splits)
qed

declare merkle_root_loop.simps [simp del]

definition merkle_root_from_leaves :: "(string \<Rightarrow> string) \<Rightarrow> string list \<Rightarrow> py_error + string" where
  "merkle_root_from_leaves sha3_512_hex leaves =
     (case merkle_root_loop sha3_512_hex leaves of
        Inl e \<Rightarrow> Inl e
      | Inr L \<Rightarrow> py_index L 0)"

definition qsafe_commit_trace ::
  "(string \<Rightarrow> string) \<Rightarrow> int list \<Rightarrow> py_error + (string \<times> string list)" where
  "qsafe_commit_trace sha3_512_hex trace =
     (let leaves = map (\<lambda>v. hash512 sha3_512_hex (PInt v)) trace
      in case merkle_root_from_leaves sha3_512_hex leaves of
           Inl e \<Rightarrow> Inl e
         | Inr root \<Rightarrow> Inr (root, leaves))"

section \<open>Collision search engine: the tree rebuild\<close>

text \<open>
  \<open>attack_vuln_stark.py\<close>:
  \<^verbatim>\<open>
  def build_merkle_from_leaves(leaves, hash_func=hash_trunc16):
      L = list(leaves)
      while len(L) > 1:
          if len(L) % 2 != 0:
              L.append(L[-1])
          L = [hash_func(L[i]+L[i+1]) for i in range(0, len(L), 2)]
      return L[0]

  def recompute_root_with_new_leaf(trace, leaf_index, new_value):
      leaves = [hash_trunc16(v) for v in trace]
      leaves[leaf_index] = hash_trunc16(new_value)
      return build_merkle_from_leaves(leaves), leaves
  \<close>
  \<open>new_value\<close> is "string/number" by the source's comment, hence a \<open>pyval\<close>.
\<close>

function build_merkle_loop :: "(pyval \<Rightarrow> string) \<Rightarrow> string list \<Rightarrow> py_error + string list" where
  "build_merkle_loop hash_func L =
     (if length L > 1 then
        (case hash_pairs hash_func (if length L mod 2 \<noteq> 0 then L @ [last L] else L) of
           Inl e \<Rightarrow> Inl e
         | Inr L' \<Rightarrow> build_merkle_loop hash_func L')
      else Inr L)"
  by pat_completeness auto
termination
proof (relation "measure (\<lambda>(h, L). length L)")
  show "wf (measure (\<lambda>(h, L). length L))" by simp
next
  fix hash_func :: "pyval \<Rightarrow> string" and L L' :: "string list"
  assume gt: "1 < length L"
    and ok: "hash_pairs hash_func (if length L mod 2 \<noteq> 0 then L @ [last L] else L) = Inr L'"
  have len: "hash_pairs hash_func xs = Inr ys \<Longrightarrow> 2 * length ys = length xs" for xs ys
    by (induction hash_func xs arbitrary: ys rule: hash_pairs.induct)
       (auto split: sum.splits)
  from len[OF ok] gt
  show "((hash_func, L'), (hash_func, L)) \<in> measure (\<lambda>(h, L). length L)"
    by (auto split: if_splits)
qed

declare build_merkle_loop.simps [simp del]

definition build_merkle_from_leaves :: "(pyval \<Rightarrow> string) \<Rightarrow> string list \<Rightarrow> py_error + string" where
  "build_merkle_from_leaves hash_func leaves =
     (case build_merkle_loop hash_func leaves of
        Inl e \<Rightarrow> Inl e
      | Inr L \<Rightarrow> py_index L 0)"

definition recompute_root_with_new_leaf ::
  "(string \<Rightarrow> string) \<Rightarrow> int list \<Rightarrow> int \<Rightarrow> pyval \<Rightarrow> py_error + (string \<times> string list)" where
  "recompute_root_with_new_leaf sha3_512_hex trace leaf_index new_value =
     (let leaves = map (\<lambda>v. hash_trunc16 sha3_512_hex (PInt v)) trace
      in case py_setitem leaves leaf_index (hash_trunc16 sha3_512_hex new_value) of
           Inl e \<Rightarrow> Inl e
         | Inr leaves' \<Rightarrow>
             (case build_merkle_from_leaves (hash_trunc16 sha3_512_hex) leaves' of
                Inl e \<Rightarrow> Inl e
              | Inr root \<Rightarrow> Inr (root, leaves')))"

section \<open>Challenge sampler\<close>

text \<open>
  \<^verbatim>\<open>
  def random_challenges(n, k=3):
      return random.sample(range(n-2), k)
  \<close>
  (\<open>mini_stark.py\<close> and \<open>pqzk_poc/mini_stark_qsafe.py\<close>). \<open>random.sample\<close> belongs to
  the Python standard library; the model follows its text (CPython 3.11, without the
  \<open>counts\<close> argument, which the scripts never pass):
  \<^verbatim>\<open>
  n = len(population)
  randbelow = self._randbelow
  if not 0 <= k <= n:
      raise ValueError("Sample larger than population or is negative")
  result = [None] * k
  setsize = 21        # size of a small set minus size of an empty list
  if k > 5:
      setsize += 4 ** _ceil(_log(k * 3, 4))  # table size for big sets
  if n <= setsize:
      pool = list(population)
      for i in range(k):
          j = randbelow(n - i)
          result[i] = pool[j]
          pool[j] = pool[n - i - 1]  # move non-selected item into vacancy
  else:
      selected = set()
      selected_add = selected.add
      for i in range(k):
          j = randbelow(n)
          while j in selected:
              j = randbelow(n)
          selected_add(j)
          result[i] = population[j]
  return result
  \<close>
  The randomness source is a parameter: \<open>rnd c\<close> is the raw value behind the \<open>c\<close>-th
  call of \<open>randbelow\<close>, and \<open>randbelow(m)\<close> is that value modulo \<open>m\<close>. The counter \<open>c\<close>
  of calls made so far is threaded through both branches. Nothing is assumed of \<open>rnd\<close>
  in the definitions.
\<close>

text \<open>
  The threshold. \<open>3k\<close> is never a power of four, so \<open>_ceil(_log(k * 3, 4))\<close> is the
  least exponent \<open>e\<close> with \<open>3k \<le> 4^e\<close>; the model finds it by counting up. (No theorem
  below depends on the value of the threshold: each is proved for both branches.)
\<close>

function ceil_log4_from :: "nat \<Rightarrow> nat \<Rightarrow> nat" where
  "ceil_log4_from e m = (if m \<le> 4 ^ e then e else ceil_log4_from (Suc e) m)"
  by pat_completeness auto
termination
proof (relation "measure (\<lambda>(e, m). m - 4 ^ e)")
  show "wf (measure (\<lambda>(e, m). m - 4 ^ e))" by simp
next
  fix e m :: nat
  assume "\<not> m \<le> 4 ^ e"
  moreover have "(4::nat) ^ e < 4 ^ Suc e" by simp
  ultimately show "((Suc e, m), (e, m)) \<in> measure (\<lambda>(e, m). m - 4 ^ e)"
    by (simp add: diff_less_mono2)
qed

declare ceil_log4_from.simps [simp del]

definition setsize :: "nat \<Rightarrow> nat" where
  "setsize k = (if k > 5 then 21 + 4 ^ ceil_log4_from 0 (k * 3) else 21)"

text \<open>
  The pool branch. The list \<open>pool\<close> of the model is the part \<open>pool[0 : n-i]\<close> of
  CPython's pool, the part that later rounds can still read; the last argument counts the
  rounds still to run.
\<close>

fun sample_pool_loop :: "(nat \<Rightarrow> nat) \<Rightarrow> 'a list \<Rightarrow> nat \<Rightarrow> nat \<Rightarrow> 'a list" where
  "sample_pool_loop rnd pool c 0 = []"
| "sample_pool_loop rnd pool c (Suc r) =
     (let j = rnd c mod length pool
      in pool ! j # sample_pool_loop rnd (butlast (pool[j := last pool])) (Suc c) r)"

text \<open>
  The set branch. The inner loop draws until the position is not in \<open>selected\<close>; it
  need not end (a source that keeps producing selected positions makes it spin), so it is
  a partial function: \<open>None\<close> stands for a call that never returns. It returns the
  position and the counter after its last draw.
\<close>

partial_function (option) draw_unselected ::
  "(nat \<Rightarrow> nat) \<Rightarrow> nat \<Rightarrow> nat set \<Rightarrow> nat \<Rightarrow> (nat \<times> nat) option" where
  "draw_unselected rnd n selected c =
     (let j = rnd c mod n
      in if j \<in> selected then draw_unselected rnd n selected (Suc c) else Some (j, Suc c))"

declare draw_unselected.simps [code]

fun sample_set_loop ::
  "(nat \<Rightarrow> nat) \<Rightarrow> 'a list \<Rightarrow> nat set \<Rightarrow> nat \<Rightarrow> nat \<Rightarrow> 'a list option" where
  "sample_set_loop rnd population selected c 0 = Some []"
| "sample_set_loop rnd population selected c (Suc r) =
     (case draw_unselected rnd (length population) selected c of
        None \<Rightarrow> None
      | Some (j, c') \<Rightarrow>
          (case sample_set_loop rnd population (insert j selected) c' r of
             None \<Rightarrow> None
           | Some rest \<Rightarrow> Some (population ! j # rest)))"

text \<open>
  The result of \<open>random.sample\<close> and of \<open>random_challenges\<close>: \<open>None\<close> when the call does
  not return, \<open>Some (Inl ValueError)\<close> when it raises, \<open>Some (Inr result)\<close> otherwise.
\<close>

definition random_sample ::
  "(nat \<Rightarrow> nat) \<Rightarrow> 'a list \<Rightarrow> int \<Rightarrow> (py_error + 'a list) option" where
  "random_sample rnd population k =
     (let n = length population
      in if \<not> (0 \<le> k \<and> k \<le> int n) then Some (Inl ValueError)
         else if n \<le> setsize (nat k)
           then Some (Inr (sample_pool_loop rnd population 0 (nat k)))
           else map_option Inr (sample_set_loop rnd population {} 0 (nat k)))"

definition random_challenges :: "(nat \<Rightarrow> nat) \<Rightarrow> int \<Rightarrow> int \<Rightarrow> (py_error + int list) option" where
  "random_challenges rnd n k = random_sample rnd (py_range 0 (n - 2)) k"

section \<open>Signature bridge\<close>

text \<open>
  \<open>pqzk_poc/legacy_rsa_toy.py\<close>: \<open>p = 3\<close>, \<open>q = 5\<close>, \<open>N = p * q\<close>, \<open>e = 3\<close> and
  \<^verbatim>\<open>
  def rsa_verify(m, s):
      return pow(s, e, N) == (m % N)
  \<close>
\<close>

definition rsa_N :: int where
  "rsa_N = 3 * 5"

definition rsa_e :: nat where
  "rsa_e = 3"

definition rsa_verify :: "int \<Rightarrow> int \<Rightarrow> bool" where
  "rsa_verify m s \<longleftrightarrow> (s ^ rsa_e) mod rsa_N = m mod rsa_N"

text \<open>
  The argument \<open>signer_blob\<close> of \<open>chainB_verify\<close> is whatever the caller passes: an
  integer signature in the legacy flow, a tuple in the post-quantum flow. \<open>ObjOther\<close>
  stands for any object that is neither a number nor iterable (a signature object of the
  \<open>oqs\<close> library, \<open>None\<close>).
\<close>

datatype pyobj = ObjInt int | ObjBytes "nat list" | ObjTuple "pyobj list" | ObjOther nat

text \<open>
  The assignment \<open>sig_impl, pk = signer_blob\<close>: an iterable of exactly two items
  unpacks, one of another length raises \<open>ValueError\<close>, a value that is not iterable
  raises \<open>TypeError\<close>.
\<close>

fun unpack2 :: "pyobj \<Rightarrow> py_error + (pyobj \<times> pyobj)" where
  "unpack2 (ObjTuple [a, b]) = Inr (a, b)"
| "unpack2 (ObjTuple xs) = Inl ValueError"
| "unpack2 (ObjBytes [a, b]) = Inr (ObjInt (int a), ObjInt (int b))"
| "unpack2 (ObjBytes bs) = Inl ValueError"
| "unpack2 (ObjInt i) = Inl TypeError"
| "unpack2 (ObjOther k) = Inl TypeError"

text \<open>
  \<open>pqzk_poc/bridge_sim.py\<close>:
  \<^verbatim>\<open>
  def legacy_verify_commit(root_str, signature):
      h = hashlib.sha256(root_str.encode()).hexdigest()
      m = int(h, 16) % rsa.N
      return rsa.rsa_verify(m, signature)
  \<close>
  The parameter \<open>sha256_int\<close> stands for the standard library's SHA-256 digest of the
  root read as a hexadecimal number. \<open>pow\<close> raises \<open>TypeError\<close> on a signature that is
  not a number.
\<close>

definition legacy_verify_commit :: "(string \<Rightarrow> int) \<Rightarrow> string \<Rightarrow> pyobj \<Rightarrow> py_error + bool" where
  "legacy_verify_commit sha256_int root_str signature =
     (let m = sha256_int root_str mod rsa_N
      in case signature of
           ObjInt s \<Rightarrow> Inr (rsa_verify m s)
         | _ \<Rightarrow> Inl TypeError)"

text \<open>
  \<^verbatim>\<open>
  def chainB_verify(root_str, proof, signer_mode, signer_blob):
      ok_proof = stark.verify_proof(proof)
      if not ok_proof:
          print("[chainB] STARK proof failed")
          return False
      if signer_mode == 'legacy':
          sig = signer_blob
          ok_sig = legacy_verify_commit(root_str, sig)
          return ok_sig
      elif signer_mode == 'pq':
          sig_impl, pk = signer_blob
          sig_impl_obj = sig_impl
          pk_obj = pk
          return True  # for flow simplicity; call pq_verify externally
      return False
  \<close>
  The printed line is not part of the result and is left out.
\<close>

definition chainB_verify ::
  "(string \<Rightarrow> int) \<Rightarrow> string \<Rightarrow> (int \<times> int \<times> int) list \<Rightarrow> string \<Rightarrow> pyobj \<Rightarrow> py_error + bool" where
  "chainB_verify sha256_int root_str proof signer_mode signer_blob =
     (if \<not> verify_proof proof then Inr False
      else if signer_mode = ''legacy'' then legacy_verify_commit sha256_int root_str signer_blob
      else if signer_mode = ''pq'' then
        (case unpack2 signer_blob of
           Inl e \<Rightarrow> Inl e
         | Inr (sig_impl, pk) \<Rightarrow> Inr True)
      else Inr False)"

section \<open>Auxiliary predicates\<close>

text \<open>
  The shape of a trace under the recurrence, used as the invariant of the generator's loop:
  at least two elements, both seeds equal to one, and every later element the sum of its
  two predecessors.
\<close>

definition fib_shaped :: "int list \<Rightarrow> bool" where
  "fib_shaped tr \<longleftrightarrow>
     2 \<le> length tr \<and> tr ! 0 = 1 \<and> tr ! 1 = 1 \<and>
     (\<forall>i. 2 \<le> i \<and> i < length tr \<longrightarrow> tr ! i = tr ! (i - 1) + tr ! (i - 2))"


text \<open>
  A randomness source that keeps producing every position below \<open>n\<close>: from every point
  on, each position turns up at some later draw. A uniform source has the property with
  probability one; it is what the termination of the reselection loop of \<open>random.sample\<close>
  rests on.
\<close>

definition eventually_draws :: "(nat \<Rightarrow> nat) \<Rightarrow> nat \<Rightarrow> bool" where
  "eventually_draws rnd n \<longleftrightarrow> (\<forall>c. \<forall>v<n. \<exists>d. rnd (c + d) mod n = v)"

section \<open>Facts about indexing, the generator and the proof builder\<close>

lemma py_index_last: "2 \<le> length xs \<Longrightarrow> py_index xs (- 1) = Inr (xs ! (length xs - 1))"
  by (auto simp: py_index_def Let_def nat_diff_distrib' intro!: arg_cong[where f="nth xs"])

lemma py_index_last2: "2 \<le> length xs \<Longrightarrow> py_index xs (- 2) = Inr (xs ! (length xs - 2))"
  by (auto simp: py_index_def Let_def nat_diff_distrib' intro!: arg_cong[where f="nth xs"])

lemma fib_shaped_snoc:
  assumes "fib_shaped tr"
  shows "fib_shaped (tr @ [tr ! (length tr - 1) + tr ! (length tr - 2)])"
proof -
  let ?t = "tr @ [tr ! (length tr - 1) + tr ! (length tr - 2)]"
  from assms have len: "2 \<le> length tr" and t0: "tr ! 0 = 1" and t1: "tr ! 1 = 1"
    and rec: "\<And>i. 2 \<le> i \<Longrightarrow> i < length tr \<Longrightarrow> tr ! i = tr ! (i - 1) + tr ! (i - 2)"
    by (simp_all add: fib_shaped_def)
  have l: "2 \<le> length ?t" using len by simp
  have ne: "tr \<noteq> []" "0 < length tr" "1 < length tr" "Suc 0 < length tr" using len by auto
  have h0: "?t ! 0 = 1" using ne t0 by (simp add: nth_append)
  have h1: "?t ! 1 = 1" using ne t1 by (simp add: nth_append)
  have hr: "?t ! i = ?t ! (i - 1) + ?t ! (i - 2)" if i: "2 \<le> i" "i < length ?t" for i
  proof (cases "i < length tr")
    case True
    then have "i - 1 < length tr" "i - 2 < length tr" by simp_all
    then show ?thesis using True rec[OF i(1) True] by (simp add: nth_append)
  next
    case False
    with i have "i = length tr" by simp
    moreover have "length tr - 1 < length tr" "length tr - 2 < length tr" using len by simp_all
    ultimately show ?thesis by (simp add: nth_append)
  qed
  show ?thesis
    unfolding fib_shaped_def using l h0 h1 hr by blast
qed

lemma gen_fib_loop_shaped:
  "fib_shaped tr \<Longrightarrow>
   \<exists>tr'. gen_fib_loop is tr = Inr tr' \<and> fib_shaped tr' \<and> length tr' = length tr + length is"
proof (induction "is" arbitrary: tr)
  case Nil
  then show ?case by simp
next
  case (Cons i rest)
  from Cons.prems have len: "2 \<le> length tr" by (simp add: fib_shaped_def)
  from Cons.IH[OF fib_shaped_snoc[OF Cons.prems]] len show ?case
    by (auto simp: py_index_last py_index_last2)
qed

lemma fib_shaped_init: "fib_shaped [1, 1]"
  by (simp add: fib_shaped_def)

lemma gen_fib_trace_shaped:
  "\<exists>tr. gen_fib_trace n = Inr tr \<and> fib_shaped tr \<and> length tr = (if n < 2 then 2 else nat n)"
  using gen_fib_loop_shaped[OF fib_shaped_init, of "py_range 2 n"]
  by (auto simp: gen_fib_trace_def py_range_def)

lemma verify_iff: "verify p = list_all (\<lambda>(i, lhs, rhs). lhs = rhs) p"
  by (induction p rule: verify.induct) auto

lemma verify_proof_iff: "verify_proof p = list_all (\<lambda>(i, lhs, rhs). lhs = rhs) p"
  by (induction p rule: verify_proof.induct) auto

lemma py_index_nonneg: "0 \<le> i \<Longrightarrow> i < int (length xs) \<Longrightarrow> py_index xs i = Inr (xs ! nat i)"
  by (simp add: py_index_def)

lemma py_index_ok_iff:
  "(\<exists>v. py_index xs i = Inr v) \<longleftrightarrow> - int (length xs) \<le> i \<and> i < int (length xs)"
  by (auto simp: py_index_def Let_def)

lemma py_index_fail_iff:
  "py_index xs i = Inl e \<longleftrightarrow> e = IndexError \<and> (i < - int (length xs) \<or> int (length xs) \<le> i)"
  by (auto simp: py_index_def Let_def)

lemma prove_loop_nonneg:
  "\<forall>i\<in>set is. 0 \<le> i \<and> i < int (length trace) - 2 \<Longrightarrow>
   prove_loop trace is acc =
     Inr (acc @ map (\<lambda>i. (i, trace ! nat i + trace ! (nat i + 1), trace ! (nat i + 2))) is)"
proof (induction "is" arbitrary: acc)
  case Nil
  then show ?case by simp
next
  case (Cons i rest)
  then have i: "0 \<le> i" "i < int (length trace) - 2" by simp_all
  then have "py_index trace i = Inr (trace ! nat i)"
    "py_index trace (i + 1) = Inr (trace ! (nat i + 1))"
    "py_index trace (i + 2) = Inr (trace ! (nat i + 2))"
    by (simp_all add: py_index_nonneg nat_add_distrib)
  with Cons show ?case by simp
qed

lemma prove_loop_ok:
  "\<forall>i\<in>set is. - int (length trace) \<le> i \<and> i < int (length trace) - 2 \<Longrightarrow>
   \<exists>p. prove_loop trace is acc = Inr (acc @ p) \<and> length p = length is"
proof (induction "is" arbitrary: acc)
  case Nil
  then show ?case by simp
next
  case (Cons i rest)
  then have i: "- int (length trace) \<le> i" "i < int (length trace) - 2" by simp_all
  then obtain a b c where "py_index trace i = Inr a"
    "py_index trace (i + 1) = Inr b"
    "py_index trace (i + 2) = Inr c"
    using py_index_ok_iff[of trace i] py_index_ok_iff[of trace "i + 1"] py_index_ok_iff[of trace "i + 2"]
    by auto
  moreover from Cons obtain p where
    "prove_loop trace rest (acc @ [(i, a + b, c)]) = Inr ((acc @ [(i, a + b, c)]) @ p) \<and> length p = length rest"
    by fastforce
  ultimately show ?case by simp
qed

lemma prove_loop_fail:
  "\<exists>i\<in>set is. i < - int (length trace) \<or> int (length trace) - 2 \<le> i \<Longrightarrow>
   prove_loop trace is acc = Inl IndexError"
proof (induction "is" arbitrary: acc)
  case Nil
  then show ?case by simp
next
  case (Cons i rest)
  show ?case
  proof (cases "- int (length trace) \<le> i \<and> i < int (length trace) - 2")
    case True
    with Cons.prems have "\<exists>i\<in>set rest. i < - int (length trace) \<or> int (length trace) - 2 \<le> i"
      by auto
    from Cons.IH[OF this] show ?thesis
      by (auto split: sum.splits simp: py_index_fail_iff)
  next
    case False
    then show ?thesis
      by (auto split: sum.splits simp: py_index_fail_iff py_index_def Let_def)
  qed
qed

section \<open>Facts about the Merkle loops\<close>

lemma hash_pairs_length: "hash_pairs h xs = Inr ys \<Longrightarrow> 2 * length ys = length xs"
  by (induction h xs arbitrary: ys rule: hash_pairs.induct) (auto split: sum.splits)

lemma hash_pairs_even: "even (length xs) \<Longrightarrow> \<exists>ys. hash_pairs h xs = Inr ys"
  by (induction h xs rule: hash_pairs.induct) auto

lemma padded_even: "even (length (if length L mod 2 \<noteq> 0 then L @ [last L] else L))"
proof (cases "length L mod 2 = 0")
  case True
  then show ?thesis by auto
next
  case False
  then have "odd (length L)" by presburger
  with False show ?thesis by simp
qed

lemma vuln_loop_singleton: "L \<noteq> [] \<Longrightarrow> \<exists>r. vuln_commit_trace_loop h L = Inr [r]"
proof (induction h L rule: vuln_commit_trace_loop.induct)
  case (1 h L)
  show ?case
  proof (cases "1 < length L")
    case True
    let ?P = "if length L mod 2 \<noteq> 0 then L @ [last L] else L"
    from hash_pairs_even[OF padded_even] obtain ys where ys: "hash_pairs h ?P = Inr ys"
      by blast
    from hash_pairs_length[OF ys] True have "ys \<noteq> []" by (auto split: if_splits)
    from "1.IH"[OF True ys this] obtain r where "vuln_commit_trace_loop h ys = Inr [r]" by blast
    with True ys show ?thesis
      by (subst vuln_commit_trace_loop.simps) simp
  next
    case False
    with "1.prems" obtain r where "L = [r]" by (cases L) auto
    then show ?thesis by (subst vuln_commit_trace_loop.simps) simp
  qed
qed

lemma build_loop_eq_vuln_loop: "build_merkle_loop h L = vuln_commit_trace_loop h L"
proof (induction h L rule: vuln_commit_trace_loop.induct)
  case (1 h L)
  show ?case
  proof (cases "1 < length L")
    case True
    let ?P = "if length L mod 2 \<noteq> 0 then L @ [last L] else L"
    from hash_pairs_even[OF padded_even] obtain ys where ys: "hash_pairs h ?P = Inr ys"
      by blast
    from "1.IH"[OF True ys] have "build_merkle_loop h ys = vuln_commit_trace_loop h ys" .
    with True ys show ?thesis
      by (subst build_merkle_loop.simps, subst vuln_commit_trace_loop.simps) simp
  next
    case False
    then show ?thesis
      by (subst build_merkle_loop.simps, subst vuln_commit_trace_loop.simps) simp
  qed
qed

lemma merkle_root_loop_eq_build_loop:
  "merkle_root_loop sha L = build_merkle_loop (hash512 sha) L"
proof (induction "hash512 sha" L rule: build_merkle_loop.induct)
  case (1 L)
  show ?case
  proof (cases "1 < length L")
    case True
    let ?P = "if length L mod 2 \<noteq> 0 then L @ [last L] else L"
    from hash_pairs_even[OF padded_even] obtain ys where ys: "hash_pairs (hash512 sha) ?P = Inr ys"
      by blast
    from "1.hyps"[OF True ys] have "merkle_root_loop sha ys = build_merkle_loop (hash512 sha) ys" .
    with True ys show ?thesis
      by (subst merkle_root_loop.simps, subst build_merkle_loop.simps) simp
  next
    case False
    then show ?thesis
      by (subst merkle_root_loop.simps, subst build_merkle_loop.simps) simp
  qed
qed

lemma vuln_loop_padding:
  assumes "odd (length L)" "3 \<le> length L"
  shows "vuln_commit_trace_loop h (L @ [last L]) = vuln_commit_trace_loop h L"
proof -
  let ?next = "case hash_pairs h (L @ [last L]) of
                 Inl e \<Rightarrow> Inl e | Inr L' \<Rightarrow> vuln_commit_trace_loop h L'"
  from assms have a: "length L mod 2 \<noteq> 0" "1 < length L"
    by (auto simp: odd_iff_mod_2_eq_one)
  from assms have b: "1 < length (L @ [last L])" "length (L @ [last L]) mod 2 = 0"
    by auto
  have "vuln_commit_trace_loop h L = ?next"
    using a by (subst vuln_commit_trace_loop.simps) simp
  moreover have "vuln_commit_trace_loop h (L @ [last L]) = ?next"
    using b by (subst vuln_commit_trace_loop.simps) (simp del: length_append)
  ultimately show ?thesis by simp
qed

lemma py_index_0_single: "py_index [r] 0 = Inr r"
  by (simp add: py_index_def)

lemma vuln_commit_trace_root_only:
  "trace \<noteq> [] \<Longrightarrow> \<exists>root. vuln_commit_trace h trace = Inr (root, [root])"
  using vuln_loop_singleton[of "map (\<lambda>v. h (PInt v)) trace" h]
  by (auto simp: vuln_commit_trace_def py_index_0_single)

section \<open>Facts about the sampler\<close>

lemma pool_step:
  assumes d: "distinct pool" and j: "j < length pool"
  shows "distinct (butlast (pool[j := last pool]))"
    and "set (butlast (pool[j := last pool])) = set pool - {pool ! j}"
    and "length (butlast (pool[j := last pool])) = length pool - 1"
proof -
  from j obtain xs l where pool: "pool = xs @ [l]"
    by (cases pool rule: rev_cases) auto
  with d have dx: "distinct xs" and l: "l \<notin> set xs" by simp_all
  show "length (butlast (pool[j := last pool])) = length pool - 1" by simp
  show "distinct (butlast (pool[j := last pool]))"
  proof (cases "j < length xs")
    case True
    then have "butlast (pool[j := last pool]) = xs[j := l]"
      by (simp add: pool list_update_append)
    with dx l show ?thesis by (simp add: distinct_list_update)
  next
    case False
    with j pool have "j = length xs" by simp
    then have "butlast (pool[j := last pool]) = xs" by (simp add: pool)
    with dx show ?thesis by simp
  qed
  show "set (butlast (pool[j := last pool])) = set pool - {pool ! j}"
  proof (cases "j < length xs")
    case True
    then have b: "butlast (pool[j := last pool]) = xs[j := l]"
      by (simp add: pool list_update_append)
    from True have nth: "pool ! j = xs ! j" by (simp add: pool nth_append)
    from True l have ne: "l \<noteq> xs ! j" by (metis nth_mem)
    from dx True have "set (xs[j := l]) = insert l (set xs - {xs ! j})"
      by (rule set_update_distinct)
    with b nth ne show ?thesis by (auto simp: pool)
  next
    case False
    with j pool have jj: "j = length xs" by simp
    then have "butlast (pool[j := last pool]) = xs" by (simp add: pool)
    moreover from jj have "pool ! j = l" by (simp add: pool)
    ultimately show ?thesis using l by (auto simp: pool)
  qed
qed

lemma sample_pool_loop_props:
  "distinct pool \<Longrightarrow> r \<le> length pool \<Longrightarrow>
   length (sample_pool_loop rnd pool c r) = r \<and>
   distinct (sample_pool_loop rnd pool c r) \<and>
   set (sample_pool_loop rnd pool c r) \<subseteq> set pool"
proof (induction r arbitrary: pool c)
  case 0
  then show ?case by simp
next
  case (Suc r)
  let ?j = "rnd c mod length pool"
  let ?pool' = "butlast (pool[?j := last pool])"
  from Suc.prems have pos: "0 < length pool" by auto
  then have j: "?j < length pool" by simp
  note st = pool_step[OF Suc.prems(1) j]
  from Suc.prems st(3) have "r \<le> length ?pool'" by simp
  from Suc.IH[OF st(1) this, of "Suc c"]
  have ih: "length (sample_pool_loop rnd ?pool' (Suc c) r) = r"
    "distinct (sample_pool_loop rnd ?pool' (Suc c) r)"
    "set (sample_pool_loop rnd ?pool' (Suc c) r) \<subseteq> set ?pool'"
    by simp_all
  from ih(3) st(2) have notin: "pool ! ?j \<notin> set (sample_pool_loop rnd ?pool' (Suc c) r)" by auto
  from ih(3) st(2) have sub: "set (sample_pool_loop rnd ?pool' (Suc c) r) \<subseteq> set pool" by auto
  from j have mem: "pool ! ?j \<in> set pool" by simp
  from ih(1,2) notin sub mem show ?case by (simp add: Let_def)
qed

lemma py_range_props:
  "distinct (py_range a b)" "set (py_range a b) = {i. a \<le> i \<and> i < b}"
  "int (length (py_range a b)) = max (b - a) 0"
  by (auto simp: py_range_def)


lemma draw_unselected_sound:
  assumes "draw_unselected rnd n selected c = Some y"
  shows "fst y \<notin> selected \<and> (\<exists>d. fst y = rnd (c + d) mod n \<and> snd y = Suc (c + d))"
proof (rule draw_unselected.raw_induct[
    where P = "\<lambda>rnd n selected c y.
      fst y \<notin> selected \<and> (\<exists>d. fst y = rnd (c + d) mod n \<and> snd y = Suc (c + d))",
    OF _ assms])
  fix draw :: "(nat \<Rightarrow> nat) \<Rightarrow> nat \<Rightarrow> nat set \<Rightarrow> nat \<Rightarrow> (nat \<times> nat) option"
    and rnd n selected c y
  assume IH: "\<And>rnd n selected c y. draw rnd n selected c = Some y \<Longrightarrow>
      fst y \<notin> selected \<and> (\<exists>d. fst y = rnd (c + d) mod n \<and> snd y = Suc (c + d))"
    and step: "(let j = rnd c mod n
                in if j \<in> selected then draw rnd n selected (Suc c) else Some (j, Suc c)) = Some y"
  show "fst y \<notin> selected \<and> (\<exists>d. fst y = rnd (c + d) mod n \<and> snd y = Suc (c + d))"
  proof (cases "rnd c mod n \<in> selected")
    case True
    with step have "draw rnd n selected (Suc c) = Some y" by (simp add: Let_def)
    from IH[OF this] obtain d where
      ns: "fst y \<notin> selected" and "fst y = rnd (Suc c + d) mod n" "snd y = Suc (Suc c + d)"
      by blast
    then have "fst y = rnd (c + Suc d) mod n \<and> snd y = Suc (c + Suc d)" by simp
    with ns show ?thesis by blast
  next
    case False
    with step have "y = (rnd c mod n, Suc c)" by (simp add: Let_def)
    with False have "fst y \<notin> selected" "fst y = rnd (c + 0) mod n \<and> snd y = Suc (c + 0)"
      by simp_all
    then show ?thesis by blast
  qed
qed

lemma draw_unselected_returns:
  "rnd (c + d) mod n \<notin> selected \<Longrightarrow> \<exists>y. draw_unselected rnd n selected c = Some y"
proof (induction d arbitrary: c)
  case 0
  then show ?case by (subst draw_unselected.simps) (simp add: Let_def)
next
  case (Suc d)
  show ?case
  proof (cases "rnd c mod n \<in> selected")
    case True
    from Suc.prems have "rnd (Suc c + d) mod n \<notin> selected" by simp
    from Suc.IH[of "Suc c", OF this] obtain y where
      "draw_unselected rnd n selected (Suc c) = Some y"
      by blast
    with True show ?thesis by (subst draw_unselected.simps) (simp add: Let_def)
  next
    case False
    then show ?thesis by (subst draw_unselected.simps) (simp add: Let_def)
  qed
qed

lemma draw_unselected_stuck:
  assumes "\<And>c. rnd c mod n \<in> selected"
  shows "draw_unselected rnd n selected c = None"
proof (cases "draw_unselected rnd n selected c")
  case None
  then show ?thesis .
next
  case (Some y)
  from draw_unselected_sound[OF Some] assms show ?thesis by auto
qed

lemma sample_set_loop_sound:
  assumes "distinct population"
  shows "sample_set_loop rnd population selected c r = Some res \<Longrightarrow> 0 < length population \<Longrightarrow>
         length res = r \<and> distinct res \<and> set res \<subseteq> set population \<and>
         set res \<inter> (\<lambda>j. population ! j) ` (selected \<inter> {..<length population}) = {}"
proof (induction r arbitrary: selected c res)
  case 0
  then show ?case by simp
next
  case (Suc r)
  let ?n = "length population"
  from Suc.prems(1) obtain j c' rest where
    d: "draw_unselected rnd ?n selected c = Some (j, c')" and
    rest: "sample_set_loop rnd population (insert j selected) c' r = Some rest" and
    res: "res = population ! j # rest"
    by (auto split: option.splits)
  from draw_unselected_sound[OF d] Suc.prems(2) have j: "j \<notin> selected" "j < ?n"
    by auto
  from Suc.IH[OF rest Suc.prems(2)] have ih: "length rest = r" "distinct rest"
    "set rest \<subseteq> set population"
    "set rest \<inter> (\<lambda>j. population ! j) ` (insert j selected \<inter> {..<?n}) = {}"
    by simp_all
  from ih(4) j(2) have notin: "population ! j \<notin> set rest" by auto
  from ih(4) have disj: "set rest \<inter> (\<lambda>j. population ! j) ` (selected \<inter> {..<?n}) = {}"
    by auto
  have "population ! j \<notin> (\<lambda>j. population ! j) ` (selected \<inter> {..<?n})"
  proof
    assume "population ! j \<in> (\<lambda>j. population ! j) ` (selected \<inter> {..<?n})"
    then obtain i where i: "i \<in> selected" "i < ?n" "population ! j = population ! i" by auto
    with assms j(2) have "j = i" by (simp add: nth_eq_iff_index_eq)
    with i(1) j(1) show False by simp
  qed
  with disj have "set res \<inter> (\<lambda>j. population ! j) ` (selected \<inter> {..<?n}) = {}"
    by (simp add: res)
  moreover from j(2) have "population ! j \<in> set population" by simp
  ultimately show ?case using ih(1,2,3) notin by (simp add: res)
qed

lemma sample_set_loop_returns:
  assumes fair: "eventually_draws rnd (length population)"
  shows "finite selected \<Longrightarrow> selected \<subseteq> {..<length population} \<Longrightarrow>
         card selected + r \<le> length population \<Longrightarrow>
         \<exists>res. sample_set_loop rnd population selected c r = Some res"
proof (induction r arbitrary: selected c)
  case 0
  then show ?case by simp
next
  case (Suc r)
  let ?n = "length population"
  from Suc.prems(3) have "card selected < card {..<?n}" by simp
  with Suc.prems(2) have "selected \<noteq> {..<?n}" by auto
  with Suc.prems(2) obtain v where v: "v < ?n" "v \<notin> selected" by auto
  from fair v(1) obtain d where "rnd (c + d) mod ?n = v"
    unfolding eventually_draws_def by blast
  with v(2) have "rnd (c + d) mod ?n \<notin> selected" by simp
  from draw_unselected_returns[of rnd c d ?n selected, OF this] obtain y where
    y: "draw_unselected rnd ?n selected c = Some y" by blast
  obtain j c' where jc: "y = (j, c')" by (cases y)
  from v(1) have pos: "0 < ?n" by auto
  from draw_unselected_sound[OF y] pos jc have j: "j \<notin> selected" "j < ?n" by auto
  from Suc.prems j have "finite (insert j selected)" "insert j selected \<subseteq> {..<?n}"
    "card (insert j selected) + r \<le> ?n"
    by auto
  from Suc.IH[OF this, of c'] obtain rest where
    "sample_set_loop rnd population (insert j selected) c' r = Some rest" by blast
  with y jc show ?case by simp
qed

lemma random_challenges_constant_source:
  "random_challenges (\<lambda>i. 0) 30 2 = None"
proof -
  have len: "length (py_range 0 28) = 28" by (simp add: py_range_def)
  have first: "draw_unselected (\<lambda>i. 0) 28 {} 0 = Some (0, Suc 0)"
    by (subst draw_unselected.simps) simp
  have stuck: "draw_unselected (\<lambda>i. 0) 28 {0} (Suc 0) = None"
    by (rule draw_unselected_stuck) simp
  have two: "sample_set_loop (\<lambda>i. 0) (py_range 0 28) {} 0 2 = None"
    unfolding numeral_2_eq_2 by (simp add: len first stuck)
  show ?thesis
    by (simp add: random_challenges_def random_sample_def Let_def len setsize_def two)
qed

section \<open>Further facts about the Merkle loops and the rebuild\<close>

lemma build_merkle_eq_vuln_root:
  "build_merkle_from_leaves h (map (\<lambda>v. h (PInt v)) trace) =
   map_sum id fst (vuln_commit_trace h trace)"
proof (cases "vuln_commit_trace_loop h (map (\<lambda>v. h (PInt v)) trace)")
  case (Inl e)
  then show ?thesis
    by (simp add: build_merkle_from_leaves_def vuln_commit_trace_def build_loop_eq_vuln_loop)
next
  case (Inr ls)
  then show ?thesis
    by (cases "py_index ls 0")
       (simp_all add: build_merkle_from_leaves_def vuln_commit_trace_def build_loop_eq_vuln_loop)
qed

lemma py_setitem_same:
  assumes "py_index xs i = Inr v"
  shows "py_setitem (map f xs) i (f v) = Inr (map f xs)"
proof -
  let ?j = "if i < 0 then i + int (length xs) else i"
  from assms have rng: "0 \<le> ?j \<and> ?j < int (length xs)" and v: "v = xs ! nat ?j"
    by (auto simp: py_index_def Let_def split: if_splits)
  have "(map f xs)[nat ?j := f (xs ! nat ?j)] = map f (xs[nat ?j := xs ! nat ?j])"
    by (simp only: map_update)
  also have "\<dots> = map f xs" by (simp only: list_update_id)
  finally show ?thesis using rng v
    by (auto simp: py_setitem_def Let_def)
qed

lemma merkle_root_loop_padding:
  assumes "odd (length L)" "3 \<le> length L"
  shows "merkle_root_loop sha (L @ [last L]) = merkle_root_loop sha L"
proof -
  let ?next = "case hash_pairs (hash512 sha) (L @ [last L]) of
                 Inl e \<Rightarrow> Inl e | Inr L' \<Rightarrow> merkle_root_loop sha L'"
  from assms have a: "length L mod 2 \<noteq> 0" "1 < length L"
    by (auto simp: odd_iff_mod_2_eq_one)
  from assms have b: "1 < length (L @ [last L])" "length (L @ [last L]) mod 2 = 0"
    by auto
  have "merkle_root_loop sha L = ?next"
    using a by (subst merkle_root_loop.simps) simp
  moreover have "merkle_root_loop sha (L @ [last L]) = ?next"
    using b by (subst merkle_root_loop.simps) (simp del: length_append)
  ultimately show ?thesis by simp
qed

lemma str_int_small: "str_int 1 = ''1''" "str_int 2 = ''2''"
  by (simp_all add: str_int_def str_nat.simps)

lemma qsafe_commit_trace_leaves:
  assumes "trace \<noteq> []"
  shows "\<exists>root. qsafe_commit_trace sha trace =
           Inr (root, map (\<lambda>v. hash512 sha (PInt v)) trace)"
proof -
  let ?leaves = "map (\<lambda>v. hash512 sha (PInt v)) trace"
  from assms have "?leaves \<noteq> []" by simp
  from vuln_loop_singleton[OF this, of "hash512 sha"] obtain r where
    "merkle_root_loop sha ?leaves = Inr [r]"
    by (auto simp: merkle_root_loop_eq_build_loop build_loop_eq_vuln_loop)
  then show ?thesis
    by (simp add: qsafe_commit_trace_def merkle_root_from_leaves_def py_index_0_single)
qed

section \<open>Trace generator: lengths below two (C8)\<close>

text \<open>
  Claim C8, as the code has it. Trace generation never fails. For every requested length
  \<open>n \<ge> 2\<close> it returns a trace of exactly \<open>n\<close> elements with
  \<open>trace[0] = trace[1] = 1\<close> and \<open>trace[i] = trace[i-1] + trace[i-2]\<close> for all
  \<open>2 \<le> i < n\<close>. For \<open>n < 2\<close> the loop body never runs and the two seeds are returned:
  the result is \<open>[1, 1]\<close>, of length two, and no \<open>InvalidLength\<close> failure exists.
\<close>

theorem gen_fib_trace_total:
  "\<exists>trace. gen_fib_trace n = Inr trace \<and>
     length trace = (if n < 2 then 2 else nat n) \<and>
     trace ! 0 = 1 \<and> trace ! 1 = 1 \<and>
     (\<forall>i. 2 \<le> i \<and> i < length trace \<longrightarrow> trace ! i = trace ! (i - 1) + trace ! (i - 2))"
proof -
  from gen_fib_trace_shaped[of n] obtain tr where
    tr: "gen_fib_trace n = Inr tr" "fib_shaped tr" "length tr = (if n < 2 then 2 else nat n)"
    by blast
  from tr(2) have "tr ! 0 = 1" "tr ! 1 = 1"
    "\<forall>i. 2 \<le> i \<and> i < length tr \<longrightarrow> tr ! i = tr ! (i - 1) + tr ! (i - 2)"
    by (simp_all add: fib_shaped_def)
  with tr(1,3) show ?thesis by blast
qed

theorem gen_fib_trace_total_witness:
  "gen_fib_trace 6 = Inr [1, 1, 2, 3, 5, 8] \<and>
   length [1, 1, 2, 3, 5, 8 :: int] = nat 6 \<and>
   (2::nat) \<le> 4 \<and> 4 < length [1, 1, 2, 3, 5, 8 :: int] \<and>
   [1, 1, 2, 3, 5, 8 :: int] ! 4 = [1, 1, 2, 3, 5, 8] ! (4 - 1) + [1, 1, 2, 3, 5, 8] ! (4 - 2)"
proof -
  from gen_fib_trace_total[of 6] have "\<exists>trace. gen_fib_trace 6 = Inr trace \<and> length trace = 6"
    by auto
  then show ?thesis
    by (simp add: gen_fib_trace_def py_range_def py_index_def upto_rec_numeral)
qed

text \<open>
  The claim as the specification states it fails at \<open>n = 1\<close>: the call returns the trace
  \<open>[1, 1]\<close> instead of failing.
\<close>

theorem gen_fib_trace_short_counterexample:
  "(1::int) < 2 \<and> gen_fib_trace 1 = Inr [1, 1]"
  by (simp add: gen_fib_trace_def py_range_def)

section \<open>Prove then verify on a genuine trace (C4)\<close>

text \<open>
  Claim C4. For every \<open>n \<ge> 2\<close>, the trace that the generator returns for \<open>n\<close>, and every
  list of challenge indices each in \<open>[0, n-2)\<close>: the generator and \<open>prove\<close> both return,
  and \<open>verify\<close> accepts the proof.
\<close>

theorem prove_verify_roundtrip:
  assumes "2 \<le> n" and "\<forall>i\<in>set indices. 0 \<le> i \<and> i < n - 2"
  shows "\<exists>trace prf. gen_fib_trace n = Inr trace \<and> length trace = nat n \<and>
           prove trace indices = Inr prf \<and> verify prf"
proof -
  from gen_fib_trace_shaped[of n] assms(1) obtain tr where
    tr: "gen_fib_trace n = Inr tr" "fib_shaped tr" "length tr = nat n"
    by auto
  let ?triple = "\<lambda>i. (i, tr ! nat i + tr ! (nat i + 1), tr ! (nat i + 2))"
  from assms tr(3) have rng: "\<forall>i\<in>set indices. 0 \<le> i \<and> i < int (length tr) - 2"
    by auto
  from prove_loop_nonneg[OF rng, of "[]"]
  have p: "prove tr indices = Inr (map ?triple indices)"
    by (simp add: prove_def)
  have "tr ! nat i + tr ! (nat i + 1) = tr ! (nat i + 2)" if "i \<in> set indices" for i
  proof -
    from rng that have "2 \<le> nat i + 2" "nat i + 2 < length tr" by auto
    with tr(2) have "tr ! (nat i + 2) = tr ! (nat i + 2 - 1) + tr ! (nat i + 2 - 2)"
      unfolding fib_shaped_def by blast
    then show ?thesis by simp
  qed
  then have "verify (map ?triple indices)"
    by (simp add: verify_iff list_all_iff)
  with tr(1,3) p show ?thesis by blast
qed

theorem prove_verify_roundtrip_witness:
  "(2::int) \<le> 10 \<and>
   gen_fib_trace 10 = Inr [1, 1, 2, 3, 5, 8, 13, 21, 34, 55] \<and>
   prove [1, 1, 2, 3, 5, 8, 13, 21, 34, 55] [0, 3, 7] = Inr [(0, 2, 2), (3, 8, 8), (7, 55, 55)] \<and>
   verify [(0, 2, 2), (3, 8, 8), (7, 55, 55)]"
proof -
  have "\<forall>i\<in>set [0, 3, 7 :: int]. 0 \<le> i \<and> i < 10 - 2" by simp
  from prove_verify_roundtrip[OF _ this]
  have "\<exists>trace prf. gen_fib_trace 10 = Inr trace \<and> prove trace [0, 3, 7] = Inr prf \<and> verify prf"
    by fastforce
  then show ?thesis
    by (simp add: gen_fib_trace_def py_range_def py_index_def upto_rec_numeral prove_def)
qed

section \<open>The verifier (C5)\<close>

text \<open>
  Claim C5. For every proof, a finite list of triples \<open>(i, lhs, rhs)\<close>, \<open>verify\<close> returns
  true if and only if every triple has \<open>lhs = rhs\<close>; its result is a Boolean, so a
  mismatch gives false and not an error. Replacing the \<open>rhs\<close> of one triple of an accepted
  proof by \<open>rhs + 1\<close> makes \<open>verify\<close> return false. The same holds of \<open>verify_proof\<close>.
\<close>

theorem verify_accepts_iff:
  "(verify prf \<longleftrightarrow> (\<forall>(i, lhs, rhs)\<in>set prf. lhs = rhs)) \<and>
   (verify_proof prf \<longleftrightarrow> (\<forall>(i, lhs, rhs)\<in>set prf. lhs = rhs)) \<and>
   (verify prf \<and> j < length prf \<longrightarrow>
      \<not> verify (prf[j := (case prf ! j of (i, lhs, rhs) \<Rightarrow> (i, lhs, rhs + 1))]) \<and>
      \<not> verify_proof (prf[j := (case prf ! j of (i, lhs, rhs) \<Rightarrow> (i, lhs, rhs + 1))]))"
proof -
  have v: "verify prf \<longleftrightarrow> (\<forall>(i, lhs, rhs)\<in>set prf. lhs = rhs)"
    by (simp add: verify_iff list_all_iff)
  have vp: "verify_proof prf \<longleftrightarrow> (\<forall>(i, lhs, rhs)\<in>set prf. lhs = rhs)"
    by (simp add: verify_proof_iff list_all_iff)
  have tamper:
    "\<not> verify (prf[j := (case prf ! j of (i, lhs, rhs) \<Rightarrow> (i, lhs, rhs + 1))]) \<and>
     \<not> verify_proof (prf[j := (case prf ! j of (i, lhs, rhs) \<Rightarrow> (i, lhs, rhs + 1))])"
    if acc: "verify prf" and j: "j < length prf"
  proof -
    obtain i lhs rhs where t: "prf ! j = (i, lhs, rhs)"
      by (cases "prf ! j") blast
    from j have "prf ! j \<in> set prf" by (rule nth_mem)
    with t have inp: "(i, lhs, rhs) \<in> set prf" by simp
    from acc have "\<forall>(i, lhs, rhs)\<in>set prf. lhs = rhs" by (simp only: v)
    from bspec[OF this inp] have eq: "lhs = rhs" by simp
    let ?bad = "prf[j := (i, lhs, rhs + 1)]"
    from j have mem: "(i, lhs, rhs + 1) \<in> set ?bad" by (rule set_update_memI)
    have ne: "lhs \<noteq> rhs + 1" using eq by simp
    have "\<not> list_all (\<lambda>(i, lhs, rhs). lhs = rhs) ?bad"
      unfolding list_all_iff
    proof
      assume "\<forall>(i, lhs, rhs)\<in>set ?bad. lhs = rhs"
      from bspec[OF this mem] have "lhs = rhs + 1" by simp
      with ne show False by simp
    qed
    then have "\<not> verify ?bad" "\<not> verify_proof ?bad"
      by (simp_all add: verify_iff verify_proof_iff)
    then show ?thesis by (simp only: t prod.case) simp
  qed
  from v vp tamper show ?thesis by blast
qed

theorem verify_accepts_iff_witness:
  "verify [(0, 2, 2), (3, 8, 8)] \<and> (1::nat) < length [(0, 2, 2), (3, 8, 8 :: int)] \<and>
   \<not> verify [(0, 2, 2), (3, 8, 9)] \<and> \<not> verify_proof [(0, 2, 2), (3, 8, 9)]"
proof -
  have "verify [(0, 2, 2), (3, 8, 8)] \<and> (1::nat) < length [(0, 2, 2), (3, 8, 8 :: int)]"
    by simp
  with verify_accepts_iff[of "[(0, 2, 2), (3, 8, 8)]" 1]
  have "\<not> verify ([(0, 2, 2), (3, 8, 8)][1 := (case [(0, 2, 2), (3, 8, 8)] ! 1 of
                  (i, lhs, rhs) \<Rightarrow> (i, lhs, rhs + 1))])"
    by (elim conjE) (erule mp [THEN conjunct1], simp)
  then show ?thesis by simp
qed

section \<open>Indices outside the trace (C7)\<close>

text \<open>
  Claim C7, as the code has it. For a trace of length \<open>n\<close>, \<open>prove(trace, indices)\<close>
  returns a proof with one triple per index when every index lies in \<open>[-n, n-2)\<close>, in
  particular when every index lies in \<open>[0, n-2)\<close>, and fails with \<open>IndexError\<close> (the
  specification's \<open>IndexOutOfRange\<close>) when some index is below \<open>-n\<close> or at least \<open>n-2\<close>.
  An index in \<open>[-n, 0)\<close> does not fail: Python reads it from the end of the trace.
\<close>

theorem prove_fails_iff_outside:
  "if \<forall>i\<in>set indices. - int (length trace) \<le> i \<and> i < int (length trace) - 2
   then \<exists>prf. prove trace indices = Inr prf \<and> length prf = length indices
   else prove trace indices = Inl IndexError"
proof (cases "\<forall>i\<in>set indices. - int (length trace) \<le> i \<and> i < int (length trace) - 2")
  case True
  from prove_loop_ok[OF True, of "[]"] True show ?thesis
    by (simp add: prove_def)
next
  case False
  then obtain i where "i \<in> set indices"
    "\<not> (- int (length trace) \<le> i \<and> i < int (length trace) - 2)"
    by blast
  then have "\<exists>i\<in>set indices. i < - int (length trace) \<or> int (length trace) - 2 \<le> i"
    by (intro bexI[of _ i]) auto
  from prove_loop_fail[OF this, of "[]"] False show ?thesis
    by (simp add: prove_def)
qed

theorem prove_fails_iff_outside_witness:
  "prove [1, 1, 2, 3, 5] [0, 2, - 5] = Inr [(0, 2, 2), (2, 5, 5), (- 5, 2, 2)] \<and>
   prove [1, 1, 2, 3, 5] [0, 3] = Inl IndexError \<and>
   prove [1, 1, 2, 3, 5] [- 6] = Inl IndexError"
proof -
  have "\<not> (\<forall>i\<in>set [0, 3 :: int]. - int (length [1, 1, 2, 3, 5 :: int]) \<le> i \<and>
            i < int (length [1, 1, 2, 3, 5 :: int]) - 2)"
    by simp
  with prove_fails_iff_outside[of "[0, 3]" "[1, 1, 2, 3, 5]"]
  have "prove [1, 1, 2, 3, 5] [0, 3] = Inl IndexError"
    by presburger
  then show ?thesis
    by (simp add: prove_def py_index_def)
qed

text \<open>
  The claim as the specification states it fails at the trace \<open>[1, 1, 2]\<close> and the index
  \<open>-1\<close>, which is outside \<open>[0, 1)\<close>: the call returns the triple
  \<open>(-1, trace[-1] + trace[0], trace[1])\<close> and does not fail.
\<close>

theorem prove_negative_index_counterexample:
  "(- 1 :: int) < 0 \<and> prove [1, 1, 2] [- 1] = Inr [(- 1, 3, 1)]"
  by (simp add: prove_def py_index_def)

section \<open>A round with no challenge (C10)\<close>

text \<open>
  Claim C10. \<open>verify\<close> applied to the empty proof returns true. The sampler returns the
  empty challenge list for \<open>k = 0\<close>, whatever \<open>n\<close> is, and \<open>prove\<close> on no index returns
  the empty proof, whatever the trace is: a round with zero challenges accepts every trace
  and checks no triple.
\<close>

theorem zero_challenges_accept:
  "verify [] \<and> verify_proof [] \<and>
   random_challenges rnd n 0 = Some (Inr []) \<and>
   prove trace [] = Inr [] \<and>
   (case random_challenges rnd n 0 of
      None \<Rightarrow> False
    | Some (Inl e) \<Rightarrow> False
    | Some (Inr idx) \<Rightarrow> (case prove trace idx of Inl e \<Rightarrow> False | Inr prf \<Rightarrow> verify prf))"
  by (simp add: random_challenges_def random_sample_def prove_def Let_def)

section \<open>What the vulnerable commitment returns beside the root (C1)\<close>

text \<open>
  Claim C1 says that \<open>commit(trace)\<close> returns the root together with the per-element
  leaf digests. \<open>commit_trace\<close> of \<open>pqzk_poc/mini_stark_qsafe.py\<close> does
  (\<open>qsafe_commit_trace_leaves\<close>). \<open>commit_trace\<close> of \<open>vuln_stark.py\<close> does not: its
  loop overwrites the variable \<open>leaves\<close>, so for a trace of two or more elements the
  second component is the last level, the one-element list holding the root
  (\<open>vuln_commit_trace_root_only\<close>). On the trace \<open>[1, 1]\<close> it returns
  \<open>(root, [root])\<close>, which is not the list of the two leaf digests, whatever the hash
  function is.
\<close>

theorem vuln_commit_trace_leaves_overwritten:
  "vuln_commit_trace h [1, 1] =
     Inr (h (PStr (h (PInt 1) @ h (PInt 1))), [h (PStr (h (PInt 1) @ h (PInt 1)))]) \<and>
   [h (PStr (h (PInt 1) @ h (PInt 1)))] \<noteq> map (\<lambda>v. h (PInt v)) [1, 1]"
  by (simp add: vuln_commit_trace_def vuln_commit_trace_loop.simps py_index_def)

section \<open>Padding law (C3)\<close>

text \<open>
  Claim C3. At a level of the Merkle build with an odd number of nodes, at least three,
  the duplication rule gives the same result as the list with a copy of its last node
  appended, whose count is even: this holds of the loop of \<open>commit_trace\<close>
  (\<open>vuln_stark.py\<close>) and of the loop of \<open>merkle_root_from_leaves\<close>
  (\<open>pqzk_poc/mini_stark_qsafe.py\<close>) on every such list, hence also of the root.
\<close>

theorem padding_law:
  assumes "odd (length L)" and "3 \<le> length L"
  shows "vuln_commit_trace_loop h (L @ [last L]) = vuln_commit_trace_loop h L \<and>
         merkle_root_loop sha (L @ [last L]) = merkle_root_loop sha L \<and>
         merkle_root_from_leaves sha (L @ [last L]) = merkle_root_from_leaves sha L \<and>
         (\<exists>root. merkle_root_from_leaves sha L = Inr root)"
proof -
  from assms have ne: "L \<noteq> []" by auto
  from vuln_loop_singleton[OF ne, of "hash512 sha"] obtain r where
    "merkle_root_loop sha L = Inr [r]"
    by (auto simp: merkle_root_loop_eq_build_loop build_loop_eq_vuln_loop)
  then have "\<exists>root. merkle_root_from_leaves sha L = Inr root"
    by (simp add: merkle_root_from_leaves_def py_index_0_single)
  moreover have "merkle_root_from_leaves sha (L @ [last L]) = merkle_root_from_leaves sha L"
    by (simp only: merkle_root_from_leaves_def merkle_root_loop_padding[OF assms])
  ultimately show ?thesis
    using vuln_loop_padding[OF assms] merkle_root_loop_padding[OF assms] by simp
qed

theorem padding_law_witness:
  "odd (length [''a'', ''b'', ''c'']) \<and> 3 \<le> length [''a'', ''b'', ''c''] \<and>
   vuln_commit_trace_loop py_str [''a'', ''b'', ''c'', ''c''] =
     vuln_commit_trace_loop py_str [''a'', ''b'', ''c''] \<and>
   merkle_root_from_leaves (\<lambda>s. s) [''a'', ''b'', ''c'', ''c''] = Inr ''abcc'' \<and>
   merkle_root_from_leaves (\<lambda>s. s) [''a'', ''b'', ''c''] = Inr ''abcc''"
proof -
  have "odd (length [''a'', ''b'', ''c''])" "3 \<le> length [''a'', ''b'', ''c'']" by simp_all
  from padding_law[OF this, of py_str "\<lambda>s. s"]
  have "vuln_commit_trace_loop py_str [''a'', ''b'', ''c'', ''c''] =
          vuln_commit_trace_loop py_str [''a'', ''b'', ''c'']"
    by simp
  then show ?thesis
    by (simp add: merkle_root_from_leaves_def merkle_root_loop.simps hash512_def py_index_def)
qed

section \<open>The rebuild of the attack engine against the commitment (C6)\<close>

text \<open>
  Claim C6. For every trace and every hash function, \<open>build_merkle_from_leaves\<close> applied
  to the leaf digests of the trace gives what \<open>commit_trace\<close> of \<open>vuln_stark.py\<close> gives
  as root (both raise on the empty trace). Hence, when \<open>trace[i]\<close> exists and has the
  value \<open>v\<close>, \<open>recompute_root_with_new_leaf(trace, i, v)\<close> returns the root that
  \<open>commit_trace(trace)\<close> returns, with the truncated hasher on both sides.
\<close>

theorem rebuild_refines_commit:
  "build_merkle_from_leaves h (map (\<lambda>v. h (PInt v)) trace) =
     map_sum id fst (vuln_commit_trace h trace) \<and>
   (py_index trace i = Inr v \<longrightarrow>
      (\<exists>root ls. vuln_commit_trace (hash_trunc16 sha) trace = Inr (root, ls) \<and>
         recompute_root_with_new_leaf sha trace i (PInt v) =
           Inr (root, map (\<lambda>v. hash_trunc16 sha (PInt v)) trace)))"
proof (intro conjI impI)
  show "build_merkle_from_leaves h (map (\<lambda>v. h (PInt v)) trace) =
        map_sum id fst (vuln_commit_trace h trace)"
    by (rule build_merkle_eq_vuln_root)
next
  assume idx: "py_index trace i = Inr v"
  let ?h = "hash_trunc16 sha"
  let ?leaves = "map (\<lambda>v. ?h (PInt v)) trace"
  from idx have "trace \<noteq> []" by (auto simp: py_index_def Let_def split: if_splits)
  from vuln_commit_trace_root_only[OF this, of ?h] obtain root where
    c: "vuln_commit_trace ?h trace = Inr (root, [root])" by blast
  with build_merkle_eq_vuln_root[of ?h trace]
  have b: "build_merkle_from_leaves ?h ?leaves = Inr root" by simp
  from py_setitem_same[OF idx, of "\<lambda>v. ?h (PInt v)"]
  have "py_setitem ?leaves i (?h (PInt v)) = Inr ?leaves" .
  with b have "recompute_root_with_new_leaf sha trace i (PInt v) = Inr (root, ?leaves)"
    by (simp add: recompute_root_with_new_leaf_def)
  with c show "\<exists>root ls. vuln_commit_trace ?h trace = Inr (root, ls) \<and>
         recompute_root_with_new_leaf sha trace i (PInt v) = Inr (root, ?leaves)"
    by blast
qed

theorem rebuild_refines_commit_witness:
  "py_index [1, 1, 2 :: int] (- 1) = Inr 2 \<and>
   vuln_commit_trace (hash_trunc16 (\<lambda>s. s)) [1, 1, 2] = Inr (''1122'', [''1122'']) \<and>
   recompute_root_with_new_leaf (\<lambda>s. s) [1, 1, 2] (- 1) (PInt 2) =
     Inr (''1122'', [''1'', ''1'', ''2''])"
proof -
  have idx: "py_index [1, 1, 2 :: int] (- 1) = Inr 2" by (simp add: py_index_def)
  have c: "vuln_commit_trace (hash_trunc16 (\<lambda>s. s)) [1, 1, 2] = Inr (''1122'', [''1122''])"
    by (simp add: py_index_def vuln_commit_trace_def vuln_commit_trace_loop.simps
          hash_trunc16_def str_int_small)
  from idx rebuild_refines_commit[of "hash_trunc16 (\<lambda>s. s)" "[1, 1, 2]" "- 1" 2 "\<lambda>s. s"]
  obtain root ls where
    r: "vuln_commit_trace (hash_trunc16 (\<lambda>s. s)) [1, 1, 2] = Inr (root, ls)"
       "recompute_root_with_new_leaf (\<lambda>s. s) [1, 1, 2] (- 1) (PInt 2) =
          Inr (root, map (\<lambda>v. hash_trunc16 (\<lambda>s. s) (PInt v)) [1, 1, 2])"
    by blast
  from r(1) c have "root = ''1122''" by simp
  with r(2) have "recompute_root_with_new_leaf (\<lambda>s. s) [1, 1, 2] (- 1) (PInt 2) =
     Inr (''1122'', [''1'', ''1'', ''2''])"
    by (simp add: hash_trunc16_def str_int_small)
  with idx c show ?thesis by simp
qed

section \<open>The challenge sampler (C9)\<close>

text \<open>
  Claim C9, as the code has it. \<open>random_challenges(n, k)\<close> fails with \<open>ValueError\<close>
  (the specification's \<open>InsufficientRange\<close>) exactly when \<open>k < 0\<close> or
  \<open>k > max(n-2, 0)\<close>. When \<open>0 \<le> k \<le> max(n-2, 0)\<close> it never fails: whatever it returns is
  a list of \<open>k\<close> pairwise-distinct indices, each in \<open>[0, n-2)\<close>, and it does return when
  the population is small enough for \<open>random.sample\<close> to select from a pool, and also when
  it is larger, provided the randomness source keeps producing every index (as a uniform
  source does with probability one; a source that repeats one value forever makes the
  library's reselection loop spin, see \<open>draw_unselected_stuck\<close>). For \<open>n \<ge> 2\<close> the bound
  is the specification's \<open>n-2\<close>; for \<open>n < 2\<close> the population \<open>range(n-2)\<close> is empty and
  \<open>k = 0\<close> still succeeds, with the empty list.
\<close>

theorem random_challenges_spec:
  "if 0 \<le> k \<and> k \<le> max (n - 2) 0
   then (\<forall>res. random_challenges rnd n k = Some res \<longrightarrow>
           (\<exists>idx. res = Inr idx \<and> int (length idx) = k \<and> distinct idx \<and>
              (\<forall>i\<in>set idx. 0 \<le> i \<and> i < n - 2))) \<and>
        (nat (n - 2) \<le> setsize (nat k) \<or> eventually_draws rnd (nat (n - 2)) \<longrightarrow>
           (\<exists>idx. random_challenges rnd n k = Some (Inr idx)))
   else random_challenges rnd n k = Some (Inl ValueError)"
proof (cases "0 \<le> k \<and> k \<le> max (n - 2) 0")
  case False
  then have "random_challenges rnd n k = Some (Inl ValueError)"
    using py_range_props(3)[of 0 "n - 2"]
    by (auto simp: random_challenges_def random_sample_def Let_def)
  with False show ?thesis by simp
next
  case True
  let ?pop = "py_range 0 (n - 2)"
  have len: "length ?pop = nat (n - 2)"
    using py_range_props(3)[of 0 "n - 2"] by linarith
  from True have kle: "nat k \<le> length ?pop" and kk: "int (nat k) = k" and
    valid: "0 \<le> k \<and> k \<le> int (length ?pop)"
    using len by auto
  have inr: "\<forall>i\<in>set idx. 0 \<le> i \<and> i < n - 2" if "set idx \<subseteq> set ?pop" for idx
    using that by (auto simp: py_range_props(2))
  show ?thesis
  proof (cases "length ?pop \<le> setsize (nat k)")
    case pool: True
    let ?idx = "sample_pool_loop rnd ?pop 0 (nat k)"
    from pool valid have r: "random_challenges rnd n k = Some (Inr ?idx)"
      by (simp add: random_challenges_def random_sample_def Let_def)
    from sample_pool_loop_props[OF py_range_props(1) kle, of rnd 0]
    have p: "length ?idx = nat k" "distinct ?idx" "set ?idx \<subseteq> set ?pop" by simp_all
    from p(1) kk have "int (length ?idx) = k" by simp
    with r p(2) inr[OF p(3)] True show ?thesis by auto
  next
    case big: False
    have r: "random_challenges rnd n k = map_option Inr (sample_set_loop rnd ?pop {} 0 (nat k))"
      using big valid by (simp add: random_challenges_def random_sample_def Let_def)
    have "0 < setsize (nat k)" by (simp add: setsize_def)
    with big have pos: "0 < length ?pop" by linarith
    have sound: "\<exists>idx. res = Inr idx \<and> int (length idx) = k \<and> distinct idx \<and>
              (\<forall>i\<in>set idx. 0 \<le> i \<and> i < n - 2)"
      if "random_challenges rnd n k = Some res" for res
    proof -
      from that r obtain idx where
        idx: "sample_set_loop rnd ?pop {} 0 (nat k) = Some idx" "res = Inr idx"
        by auto
      from sample_set_loop_sound[OF py_range_props(1) idx(1) pos]
      have p: "length idx = nat k" "distinct idx" "set idx \<subseteq> set ?pop" by simp_all
      from p(1) kk have "int (length idx) = k" by simp
      with idx(2) p(2) inr[OF p(3)] show ?thesis by blast
    qed
    have returns: "\<exists>idx. random_challenges rnd n k = Some (Inr idx)"
      if "eventually_draws rnd (nat (n - 2))"
    proof -
      from that len have fair: "eventually_draws rnd (length ?pop)" by simp
      have "finite ({} :: nat set)" "({} :: nat set) \<subseteq> {..<length ?pop}"
        "card ({} :: nat set) + nat k \<le> length ?pop"
        using kle by simp_all
      from sample_set_loop_returns[OF fair this, of 0] r show ?thesis by auto
    qed
    from big len have "\<not> nat (n - 2) \<le> setsize (nat k)" by simp
    with sound returns True show ?thesis by auto
  qed
qed

theorem random_challenges_spec_witness:
  "eventually_draws (\<lambda>i. 27 + i) (nat (30 - 2)) \<and>
   random_challenges (\<lambda>i. 27 + i) 30 3 = Some (Inr [27, 0, 1]) \<and>
   distinct [27, 0, 1 :: int] \<and>
   random_challenges (\<lambda>i. 7 * i + 3) 10 3 = Some (Inr [3, 7, 5]) \<and>
   distinct [3, 7, 5 :: int] \<and>
   random_challenges (\<lambda>i. 7 * i + 3) 10 9 = Some (Inl ValueError)"
proof -
  have fair: "eventually_draws (\<lambda>i. 27 + i) (nat (30 - 2))"
    unfolding eventually_draws_def
  proof (intro allI impI)
    fix c v :: nat
    assume "v < nat (30 - 2)"
    then have v: "v < 28" by simp
    have "27 + (c + (v + 1 + 27 * c)) = v + 28 * (c + 1)" by simp
    then have "(27 + (c + (v + 1 + 27 * c))) mod 28 = v" using v by simp
    then have "(27 + (c + (v + 1 + 27 * c))) mod nat (30 - 2) = v" by simp
    then show "\<exists>d. (27 + (c + d)) mod nat (30 - 2) = v" by (rule exI)
  qed
  have valid: "((0::int) \<le> 3 \<and> (3::int) \<le> max (30 - 2) 0) = True" by simp
  from random_challenges_spec[of 3 30 "\<lambda>i. 27 + i"] fair
  have "\<exists>idx. random_challenges (\<lambda>i. 27 + i) 30 3 = Some (Inr idx)"
    unfolding valid if_True by blast
  moreover have "random_challenges (\<lambda>i. 27 + i) 30 3 = Some (Inr [27, 0, 1])"
    by code_simp
  moreover have "random_challenges (\<lambda>i. 7 * i + 3) 10 3 = Some (Inr [3, 7, 5])"
    by code_simp
  moreover have "random_challenges (\<lambda>i. 7 * i + 3) 10 9 = Some (Inl ValueError)"
    by code_simp
  ultimately show ?thesis using fair by simp
qed

text \<open>
  The claim as the specification states it fails at \<open>n = 1\<close>, \<open>k = 0\<close>: the condition
  \<open>0 \<le> k \<le> n-2\<close> is false there, and the call returns the empty list instead of
  failing.
\<close>

theorem random_challenges_empty_range_counterexample:
  "\<not> ((0::int) \<le> 0 \<and> (0::int) \<le> 1 - 2) \<and> random_challenges (\<lambda>i. 0) 1 0 = Some (Inr [])"
  by (simp add: random_challenges_def random_sample_def py_range_def setsize_def)

section \<open>The post-quantum path of the bridge verifier (C2)\<close>

text \<open>
  Claim C2, as the code has it. \<open>chainB_verify\<close> called with \<open>signer_mode = 'pq'\<close> returns
  true whenever the STARK proof verifies and \<open>signer_blob\<close> unpacks into exactly two
  items: the two items are never looked at, any two such blobs give the same result, and no
  signature is verified on that path. A \<open>signer_blob\<close> that does not unpack into two items
  (the three-item tuple \<open>(sig_impl, pk, signature)\<close> that the source's comment names, or a
  bare number) makes the unpacking assignment raise instead.
\<close>

theorem chainB_verify_pq_ignores_signature:
  assumes "verify_proof prf"
    and "unpack2 blob1 = Inr (sig_impl1, pk1)"
    and "unpack2 blob2 = Inr (sig_impl2, pk2)"
  shows "chainB_verify sha256_int root_str prf ''pq'' blob1 = Inr True \<and>
         chainB_verify sha256_int root_str prf ''pq'' blob2 =
           chainB_verify sha256_int root_str prf ''pq'' blob1"
  using assms by (simp add: chainB_verify_def)

theorem chainB_verify_pq_ignores_signature_witness:
  "verify_proof [(0, 2, 2)] \<and>
   unpack2 (ObjTuple [ObjOther 0, ObjBytes [1, 2, 3]]) = Inr (ObjOther 0, ObjBytes [1, 2, 3]) \<and>
   unpack2 (ObjTuple [ObjInt 5, ObjInt 6]) = Inr (ObjInt 5, ObjInt 6) \<and>
   chainB_verify (\<lambda>s. 7) ''ab'' [(0, 2, 2)] ''pq'' (ObjTuple [ObjOther 0, ObjBytes [1, 2, 3]]) =
     Inr True \<and>
   chainB_verify (\<lambda>s. 7) ''ab'' [(0, 2, 2)] ''pq'' (ObjTuple [ObjInt 5, ObjInt 6]) = Inr True"
proof -
  have a: "verify_proof [(0, 2, 2)]" by simp
  have b: "unpack2 (ObjTuple [ObjOther 0, ObjBytes [1, 2, 3]]) = Inr (ObjOther 0, ObjBytes [1, 2, 3])"
    by simp
  have c: "unpack2 (ObjTuple [ObjInt 5, ObjInt 6]) = Inr (ObjInt 5, ObjInt 6)" by simp
  from chainB_verify_pq_ignores_signature[OF a b c, of "\<lambda>s. 7" "''ab''"] a b c
  show ?thesis by simp
qed

text \<open>
  The claim as the specification states it, true for every \<open>signer_blob\<close>, fails at the
  three-item tuple: the proof verifies, and the call raises \<open>ValueError\<close>, whereas a
  two-item tuple gives true. The result does depend on the shape of the blob.
\<close>

theorem chainB_verify_pq_unpack_counterexample:
  "verify_proof [] \<and>
   chainB_verify (\<lambda>s. 7) ''ab'' [] ''pq'' (ObjTuple [ObjOther 0, ObjBytes [1], ObjBytes [2]]) =
     Inl ValueError \<and>
   chainB_verify (\<lambda>s. 7) ''ab'' [] ''pq'' (ObjTuple [ObjOther 0, ObjBytes [1]]) = Inr True"
  by (simp add: chainB_verify_def)

end
